theory Spec2Isabelle
  imports Main
begin

section \<open>Python values, errors and string helpers\<close>

text \<open>
  The module under study is \<^verbatim>\<open>brownie/project/compiler.py\<close>.  Every exception that the
  modelled code can raise is a value of \<open>py_error\<close>; a computation that may raise returns
  \<open>py_error + 'a\<close>, with \<open>Inl\<close> for the exception.
\<close>

datatype py_error = IndexError | KeyError | TypeError | ValueError | StopIteration | AttributeError

text \<open>
  A row of the expanded source map is a heterogeneous Python list: integers in the first
  three positions, strings from the fourth position on, and \<^verbatim>\<open>None\<close> for a field that
  is still to be inherited.
\<close>

datatype pyval = PNone | PInt int | PStr string

text \<open>\<^verbatim>\<open>s.split(c)\<close> for a separator of one character: the result is never empty.\<close>

fun split_on :: "char \<Rightarrow> string \<Rightarrow> string list" where
  "split_on c [] = [[]]"
| "split_on c (x # xs) =
     (if x = c then [] # split_on c xs
      else (case split_on c xs of [] \<Rightarrow> [[x]] | w # ws \<Rightarrow> (x # w) # ws))"

text \<open>
  \<^verbatim>\<open>int(s)\<close> on text: surrounding white space is stripped, one sign is allowed, and the
  digits may be grouped by single underscores.  Strings are read as ASCII text, as the
  compiler emits them; every other byte is neither a digit nor white space.  \<open>None\<close> stands
  for \<^verbatim>\<open>ValueError\<close>.
\<close>

definition is_space :: "char \<Rightarrow> bool" where
  "is_space c = (let n = (of_char c :: nat) in (9 \<le> n \<and> n \<le> 13) \<or> (28 \<le> n \<and> n \<le> 32))"

definition is_digit :: "char \<Rightarrow> bool" where
  "is_digit c = (let n = (of_char c :: nat) in 48 \<le> n \<and> n \<le> 57)"

definition digit_val :: "char \<Rightarrow> nat" where
  "digit_val c = (of_char c :: nat) - 48"

fun digits_value :: "nat \<Rightarrow> string \<Rightarrow> nat option" where
  "digits_value acc [] = Some acc"
| "digits_value acc (c # cs) =
     (if c = CHR ''_'' then
        (case cs of [] \<Rightarrow> None
         | d # ds \<Rightarrow> if is_digit d then digits_value acc cs else None)
      else if is_digit c then digits_value (acc * 10 + digit_val c) cs
      else None)"

definition py_nat :: "string \<Rightarrow> nat option" where
  "py_nat s = (case s of [] \<Rightarrow> None
               | c # cs \<Rightarrow> if is_digit c then digits_value 0 s else None)"

definition py_strip :: "string \<Rightarrow> string" where
  "py_strip s = rev (dropWhile is_space (rev (dropWhile is_space s)))"

definition py_int :: "string \<Rightarrow> int option" where
  "py_int s =
     (case py_strip s of
        [] \<Rightarrow> None
      | c # cs \<Rightarrow>
          if c = CHR ''-'' then map_option (\<lambda>n. - int n) (py_nat cs)
          else if c = CHR ''+'' then map_option int (py_nat cs)
          else map_option int (py_nat (c # cs)))"

section \<open>The source map decoder\<close>

text \<open>
  \<^verbatim>\<open>_expand_row\<close> (Isabelle names cannot start with an underscore):
  \<^verbatim>\<open>row = row.split(':')\<close>, then
  \<^verbatim>\<open>[int(i) if i else None for i in row[:3]] + row[3:] + [None]*(4-len(row))\<close>.
  The comprehension stops at the first field that \<^verbatim>\<open>int\<close> rejects.
\<close>

fun int_fields :: "string list \<Rightarrow> py_error + pyval list" where
  "int_fields [] = Inr []"
| "int_fields (i # rest) =
     (if i \<noteq> [] then
        (case py_int i of
           None \<Rightarrow> Inl ValueError
         | Some n \<Rightarrow> (case int_fields rest of Inl e \<Rightarrow> Inl e | Inr vs \<Rightarrow> Inr (PInt n # vs)))
      else (case int_fields rest of Inl e \<Rightarrow> Inl e | Inr vs \<Rightarrow> Inr (PNone # vs)))"

definition expand_row :: "string \<Rightarrow> py_error + pyval list" where
  "expand_row row =
     (let r = split_on CHR '':'' row in
      case int_fields (take 3 r) of
        Inl e \<Rightarrow> Inl e
      | Inr ints \<Rightarrow> Inr (ints @ map PStr (drop 3 r) @ replicate (4 - length r) PNone))"

text \<open>
  The first statement of \<^verbatim>\<open>expand_source_map\<close>:
  \<^verbatim>\<open>[_expand_row(i) if i else None for i in source_map.split(';')]\<close>.
\<close>

fun expand_rows :: "string list \<Rightarrow> py_error + pyval list option list" where
  "expand_rows [] = Inr []"
| "expand_rows (i # rest) =
     (if i \<noteq> [] then
        (case expand_row i of
           Inl e \<Rightarrow> Inl e
         | Inr row \<Rightarrow> (case expand_rows rest of Inl e \<Rightarrow> Inl e | Inr rows \<Rightarrow> Inr (Some row # rows)))
      else (case expand_rows rest of Inl e \<Rightarrow> Inl e | Inr rows \<Rightarrow> Inr (None # rows)))"

text \<open>
  The inner loop \<^verbatim>\<open>for x in range(4)\<close> over one non-empty row: a field that is
  \<^verbatim>\<open>None\<close> takes \<^verbatim>\<open>source_map[i-1][x]\<close>.  Subscripting a preceding entry that is
  \<^verbatim>\<open>None\<close> raises \<^verbatim>\<open>TypeError\<close>; a subscript out of range raises
  \<^verbatim>\<open>IndexError\<close>.  \<open>fill_fields prev row xs\<close> runs the loop for the indices \<open>xs\<close>.
\<close>

fun fill_fields :: "pyval list option \<Rightarrow> pyval list \<Rightarrow> nat list \<Rightarrow> py_error + pyval list" where
  "fill_fields prev row [] = Inr row"
| "fill_fields prev row (x # xs) =
     (if length row \<le> x then Inl IndexError
      else if row ! x = PNone then
        (case prev of
           None \<Rightarrow> Inl TypeError
         | Some p \<Rightarrow> if length p \<le> x then Inl IndexError
                     else fill_fields prev (row[x := p ! x]) xs)
      else fill_fields prev row xs)"

text \<open>
  The loop \<^verbatim>\<open>for i in range(1, len(source_map))\<close>.  \<open>prev\<close> is \<^verbatim>\<open>source_map[i-1]\<close>,
  already expanded; the remaining list starts at index \<open>i\<close>.  An empty entry becomes the
  preceding entry (the same object, which no later iteration mutates).
\<close>

fun fill_from :: "pyval list option \<Rightarrow> pyval list option list \<Rightarrow> py_error + pyval list option list" where
  "fill_from prev [] = Inr []"
| "fill_from prev (None # rest) =
     (case fill_from prev rest of Inl e \<Rightarrow> Inl e | Inr rows \<Rightarrow> Inr (prev # rows))"
| "fill_from prev (Some row # rest) =
     (case fill_fields prev row [0, 1, 2, 3] of
        Inl e \<Rightarrow> Inl e
      | Inr row' \<Rightarrow>
          (case fill_from (Some row') rest of Inl e \<Rightarrow> Inl e | Inr rows \<Rightarrow> Inr (Some row' # rows)))"

definition expand_source_map :: "string \<Rightarrow> py_error + pyval list option list" where
  "expand_source_map source_map =
     (case expand_rows (split_on CHR '';'' source_map) of
        Inl e \<Rightarrow> Inl e
      | Inr [] \<Rightarrow> Inr []
      | Inr (first # rest) \<Rightarrow>
          (case fill_from first rest of Inl e \<Rightarrow> Inl e | Inr rows \<Rightarrow> Inr (first # rows)))"

section \<open>The syntax tree and the branch candidates\<close>

text \<open>
  Modelled from the spec: the node objects of the syntax tree library (node kind, byte offset
  range, ancestor and descendant traversal) are not among the repository's files.  A node is
  one of the kinds that the branch extraction tells apart, or any other kind with its child
  nodes.  The fields are, in order: \<open>Other\<close> node type, offset, children;
  \<open>BinaryOperation\<close> offset, type, operator, left, right; \<open>FunctionCall\<close> offset, name,
  called expression, arguments; \<open>IfStatement\<close> offset, condition, the branches;
  \<open>Conditional\<close> offset, condition, the two alternatives.

  A node object is identified by its position: the list of child indices that leads to it
  from the base node.  \<open>parents base q\<close> lists the ancestors of the node at \<open>q\<close>, nearest
  first and up to the base node, each with the index of the child through which it reaches
  the node; for a \<open>BinaryOperation\<close>, index \<open>0\<close> says that the node is its left operand or
  lies inside it.  \<open>bool_ops n\<close> lists the positions, inside \<open>n\<close> and \<open>n\<close> included, of the
  boolean operations \<^verbatim>\<open>||\<close> and \<^verbatim>\<open>&&\<close>, which is what
  \<^verbatim>\<open>n.children(include_self=True, filters=filters)\<close> finds.  Iterating over a
  \<open>BinaryOperation\<close> yields its two operands, the positions \<open>p @ [0]\<close> and \<open>p @ [1]\<close>
  for the operation at \<open>p\<close>.
\<close>

type_synonym offset = "int \<times> int"
















section \<open>Insertion-ordered dictionaries\<close>

text \<open>
  A Python \<^verbatim>\<open>dict\<close> whose iteration order matters is a list of pairs with distinct keys, in
  insertion order: assigning to a key that is present keeps its place, assigning to a new
  key appends it.  A lookup is \<open>map_of\<close>.  \<open>dict_of\<close> is \<^verbatim>\<open>dict(pairs)\<close>.
\<close>

fun dict_set :: "('k \<times> 'v) list \<Rightarrow> 'k \<Rightarrow> 'v \<Rightarrow> ('k \<times> 'v) list" where
  "dict_set [] k v = [(k, v)]"
| "dict_set ((k', v') # d) k v =
     (if k' = k then (k, v) # d else (k', v') # dict_set d k v)"

definition dict_del :: "('k \<times> 'v) list \<Rightarrow> 'k \<Rightarrow> ('k \<times> 'v) list" where
  "dict_del d k = filter (\<lambda>(k', v). k' \<noteq> k) d"

definition dict_of :: "('k \<times> 'v) list \<Rightarrow> ('k \<times> 'v) list" where
  "dict_of kvs = foldl (\<lambda>d (k, v). dict_set d k v) [] kvs"

section \<open>The inputs taken from the syntax tree\<close>

text \<open>
  Modelled from the spec: the source unit nodes of the syntax tree library are not among the
  repository's files; the walk uses three things of a source unit, which are taken as given.
  \<^item> \<open>su_path\<close> is its \<^verbatim>\<open>path\<close>.
  \<^item> \<open>function_at u off\<close> is the \<^verbatim>\<open>full_name\<close> of the first node of
    \<^verbatim>\<open>u.children(depth=2, inner_offset=off, filters={'node_type': "FunctionDefinition"})\<close>,
    and \<open>None\<close> when that list is empty (subscripting it raises \<^verbatim>\<open>IndexError\<close>).
  \<^item> \<open>revert_calls u name\<close> lists the \<^verbatim>\<open>revert\<close> call nodes of the function definition
    \<open>name\<close> of \<open>u\<close>, each as its offset and whether it has arguments; it is \<open>None\<close> when \<open>u\<close>
    has no such function definition (\<^verbatim>\<open>IndexError\<close> again).
\<close>

record source_unit =
  su_path :: string
  function_at :: "offset \<Rightarrow> string option"
  revert_calls :: "string \<Rightarrow> (offset \<times> bool) list option"

section \<open>Program counter records and the state of the walk\<close>

text \<open>
  An element of \<^verbatim>\<open>pc_list\<close> is a dictionary with the keys \<^verbatim>\<open>op\<close> and \<^verbatim>\<open>pc\<close> and
  the optional keys \<^verbatim>\<open>first_revert\<close>, \<^verbatim>\<open>jump\<close>, \<^verbatim>\<open>value\<close>, \<^verbatim>\<open>path\<close>,
  \<^verbatim>\<open>offset\<close>, \<^verbatim>\<open>fn\<close>, \<^verbatim>\<open>statement\<close>, \<^verbatim>\<open>branch\<close> and \<^verbatim>\<open>jump_revert\<close>.  An
  optional key is an \<open>option\<close>; the two markers, whose value is always \<^verbatim>\<open>True\<close>, are
  booleans.  The value under \<^verbatim>\<open>jump\<close> is the fourth field of the source map entry, which
  can be \<^verbatim>\<open>None\<close>.

  The state of the walk holds the variables that the loop of \<^verbatim>\<open>generate_coverage_data\<close>
  changes, under their names in the source.  The dictionaries keyed by path have the same
  keys throughout, the set \<^verbatim>\<open>paths\<close>, and every path that the walk looks up is the path
  of a source unit of \<^verbatim>\<open>source_nodes\<close>, so it is one of these keys: they are functions of
  the path.  A Python set is the list of its elements in iteration order;
  \<^verbatim>\<open>statement_nodes[path].discard(s)\<close> is \<open>removeAll s\<close>.
\<close>

record pc_entry =
  pc_op :: string
  pc_pc :: int
  pc_first_revert :: bool
  pc_jump :: "pyval option"
  pc_value :: "string option"
  pc_path :: "string option"
  pc_offset :: "offset option"
  pc_fn :: "string option"
  pc_statement :: "nat option"
  pc_branch :: "nat option"
  pc_jump_revert :: bool

record walk_state =
  count :: nat
  pc :: int
  pc_list :: "pc_entry list"
  first_revert :: "string option"
  revert_map :: "((string \<times> string) \<times> nat list) list"
  statement_nodes :: "string \<Rightarrow> offset list"
  statement_map :: "string \<Rightarrow> string \<Rightarrow> (nat \<Rightarrow> offset option) option"
  branch_active :: "string \<Rightarrow> (offset \<times> nat) list"
  branch_set :: "string \<Rightarrow> (offset \<times> nat \<times> nat) list"

text \<open>
  \<^verbatim>\<open>hex(n).upper()[2:]\<close>: the digits in upper case for \<open>n \<ge> 0\<close>; for a negative \<open>n\<close> the
  text \<^verbatim>\<open>-0X...\<close> loses its first two characters and keeps the \<^verbatim>\<open>X\<close>.
\<close>

definition hex_char :: "nat \<Rightarrow> char" where
  "hex_char n = ''0123456789ABCDEF'' ! n"

fun hex_digits :: "nat \<Rightarrow> string" where
  "hex_digits n = (if n < 16 then [hex_char n] else hex_digits (n div 16) @ [hex_char (n mod 16)])"

declare hex_digits.simps [simp del]

definition hex_upper_tail :: "int \<Rightarrow> string" where
  "hex_upper_tail n = (if 0 \<le> n then hex_digits (nat n) else CHR ''X'' # hex_digits (nat (- n)))"

definition new_entry :: "string \<Rightarrow> int \<Rightarrow> pc_entry" where
  "new_entry opc p =
     \<lparr>pc_op = opc, pc_pc = p, pc_first_revert = False, pc_jump = None, pc_value = None,
      pc_path = None, pc_offset = None, pc_fn = None, pc_statement = None, pc_branch = None,
      pc_jump_revert = False\<rparr>"

text \<open>
  Lines 261-279 of the loop body.  The new element of \<^verbatim>\<open>pc_list\<close> is kept apart from
  the list until the iteration ends (\<open>push_entry\<close>), so inside an iteration
  \<open>length (pc_list st)\<close> is \<^verbatim>\<open>len(pc_list)-1\<close>, the index of the current step, and
  \<open>last (pc_list st)\<close> is \<^verbatim>\<open>pc_list[-2]\<close>.  \<open>fetch\<close> pops the opcode, flags the first
  revert, copies the jump field, and pops the operand of a push.
\<close>

definition fetch ::
  "pyval list option \<Rightarrow> string list \<Rightarrow> walk_state \<Rightarrow>
   py_error + (pyval list \<times> pc_entry \<times> string list \<times> walk_state)" where
  "fetch source opcodes st =
     (case opcodes of
        [] \<Rightarrow> Inl IndexError
      | opc # ops1 \<Rightarrow>
          let flag = (first_revert st = None \<and> opc = ''REVERT'' \<and>
                      map pc_op (drop (length (pc_list st) - 3) (pc_list st)) =
                        [''JUMPDEST'', ''PUSH1'', ''DUP1'']);
              st1 = (if flag then st\<lparr>first_revert := Some (''0x'' @ hex_upper_tail (pc st - 4))\<rparr>
                     else st);
              e1 = (new_entry opc (pc st))\<lparr>pc_first_revert := flag\<rparr>
          in
          (case source of
             None \<Rightarrow> Inl TypeError
           | Some src \<Rightarrow>
               if length src < 4 then Inl IndexError
               else
                 let e2 = (if src ! 3 \<noteq> PStr ''-'' then e1\<lparr>pc_jump := Some (src ! 3)\<rparr> else e1);
                     st2 = st1\<lparr>pc := pc st1 + 1\<rparr>
                 in
                 (case ops1 of
                    [] \<Rightarrow> Inl IndexError
                  | nxt # ops2 \<Rightarrow>
                      if take 2 nxt = ''0x'' then
                        (case py_int (drop 4 opc) of
                           None \<Rightarrow> Inl ValueError
                         | Some n \<Rightarrow>
                             Inr (src, e2\<lparr>pc_value := Some nxt\<rparr>, ops2, st2\<lparr>pc := pc st2 + n\<rparr>))
                      else Inr (src, e2, ops1, st2))))"

text \<open>
  Lines 293-304: the branch markers.  \<open>bnodes\<close> is \<^verbatim>\<open>branch_nodes[path]\<close>, the offsets of
  the branch candidates.  The loop \<^verbatim>\<open>for offset in branch_active[path]\<close> rebinds the
  variable \<^verbatim>\<open>offset\<close>, which the rest of the iteration reads: the result carries its
  value after these lines.
\<close>

definition branch_markers ::
  "offset list \<Rightarrow> string \<Rightarrow> offset \<Rightarrow> string \<Rightarrow> walk_state \<Rightarrow> offset \<times> walk_state" where
  "branch_markers bnodes path off opc st =
     (let idx = length (pc_list st) in
      if branch_active st path \<noteq> [] \<and> opc = ''JUMPI'' then
        (fst (last (branch_active st path)),
         st\<lparr>branch_set := (branch_set st)
                (path := foldl (\<lambda>d (o', armed). dict_set d o' (armed, idx))
                           (branch_set st path) (branch_active st path)),
             branch_active := (branch_active st)(path := [])\<rparr>)
      else if off \<in> set bnodes then
        (off,
         st\<lparr>branch_set := (branch_set st)(path := dict_del (branch_set st path) off),
             branch_active := (branch_active st)
                (path := dict_set (branch_active st path) off idx)\<rparr>)
      else (off, st))"

text \<open>
  Lines 306-325: the function label and the statement marker.  Each of the three exceptions
  that the \<^verbatim>\<open>try\<close> block catches leaves the state as it is at that point:
  \<^verbatim>\<open>IndexError\<close> from \<^verbatim>\<open>pc_list[-2]\<close> at the first step or from an empty list of
  function definitions, \<^verbatim>\<open>KeyError\<close> from a preceding step without \<^verbatim>\<open>fn\<close>, and
  \<^verbatim>\<open>StopIteration\<close> when no statement candidate contains the offset.  \<open>inside\<close> is
  \<^verbatim>\<open>sources.is_inside_offset\<close>, a function of another module, taken as given.
\<close>

definition label_statement ::
  "(offset \<Rightarrow> offset \<Rightarrow> bool) \<Rightarrow> source_unit \<Rightarrow> string \<Rightarrow> offset \<Rightarrow> pc_entry \<Rightarrow> walk_state \<Rightarrow>
   pc_entry \<times> walk_state" where
  "label_statement inside unit path off e st =
     (case pc_list st of
        [] \<Rightarrow> (e, st)
      | x # xs \<Rightarrow>
          let prev = last (pc_list st) in
          if pc_offset prev = Some off then
            (case pc_fn prev of
               None \<Rightarrow> (e, st)
             | Some f \<Rightarrow> (e\<lparr>pc_fn := Some f\<rparr>, st))
          else
            (case function_at unit off of
               None \<Rightarrow> (e, st)
             | Some f \<Rightarrow>
                 (case find (\<lambda>i. inside off i) (statement_nodes st path) of
                    None \<Rightarrow> (e\<lparr>pc_fn := Some f\<rparr>, st)
                  | Some s \<Rightarrow>
                      (e\<lparr>pc_fn := Some f, pc_statement := Some (count st)\<rparr>,
                       st\<lparr>statement_nodes := (statement_nodes st)
                             (path := removeAll s (statement_nodes st path)),
                          statement_map := (statement_map st)
                             (path := (statement_map st path)
                                (f \<mapsto> (case statement_map st path f of
                                           None \<Rightarrow> Map.empty
                                         | Some d \<Rightarrow> d)(count st \<mapsto> s))),
                          count := count st + 1\<rparr>))))"

text \<open>
  Lines 326-330: the jumps to the first revert.  \<^verbatim>\<open>len(pc_list)\<close> counts the current
  step, so it is \<open>length (pc_list st) + 1\<close> here.  The key needs \<^verbatim>\<open>fn\<close>, and
  \<^verbatim>\<open>KeyError\<close> is not caught.
\<close>

definition revert_jump ::
  "string list \<Rightarrow> pc_entry \<Rightarrow> walk_state \<Rightarrow> py_error + walk_state" where
  "revert_jump opcodes e st =
     (case pc_value e of
        None \<Rightarrow> Inr st
      | Some v \<Rightarrow>
          if Some v = first_revert st then
            (case opcodes of
               [] \<Rightarrow> Inl IndexError
             | nxt # ops \<Rightarrow>
                 if nxt = ''JUMP'' \<or> nxt = ''JUMPI'' then
                   (case (pc_path e, pc_fn e) of
                      (Some p, Some f) \<Rightarrow>
                        Inr (st\<lparr>revert_map := dict_set (revert_map st) (p, f)
                               ((case map_of (revert_map st) (p, f) of
                                   None \<Rightarrow> []
                                 | Some vs \<Rightarrow> vs) @ [length (pc_list st) + 1])\<rparr>)
                    | other \<Rightarrow> Inl KeyError)
                 else Inr st)
          else Inr st)"

definition push_entry :: "pc_entry \<Rightarrow> walk_state \<Rightarrow> walk_state" where
  "push_entry e st = st\<lparr>pc_list := pc_list st @ [e]\<rparr>"

text \<open>
  One iteration of \<^verbatim>\<open>while source_map\<close>.  \<open>snodes\<close> is the dictionary
  \<^verbatim>\<open>source_nodes\<close>, from contract id to source unit.  The first three fields of a row of
  the expanded source map hold an integer or \<^verbatim>\<open>None\<close>: a key other than an integer is not
  in \<^verbatim>\<open>source_nodes\<close>, and \<^verbatim>\<open>source[0]+source[1]\<close> with a \<^verbatim>\<open>None\<close> raises
  \<^verbatim>\<open>TypeError\<close>.
\<close>

definition walk_step ::
  "(offset \<Rightarrow> offset \<Rightarrow> bool) \<Rightarrow> (int \<times> source_unit) list \<Rightarrow> (string \<Rightarrow> offset list) \<Rightarrow>
   pyval list option \<Rightarrow> string list \<Rightarrow> walk_state \<Rightarrow> py_error + (string list \<times> walk_state)" where
  "walk_step inside snodes bnodes source opcodes st =
     (case fetch source opcodes st of
        Inl err \<Rightarrow> Inl err
      | Inr (src, e, ops, st1) \<Rightarrow>
          if src ! 2 = PInt (- 1) then Inr (ops, push_entry e st1)
          else
            (case (case src ! 2 of PInt n \<Rightarrow> map_of snodes n | other \<Rightarrow> None) of
               None \<Rightarrow> Inl KeyError
             | Some unit \<Rightarrow>
                 let path = su_path unit; e1 = e\<lparr>pc_path := Some path\<rparr> in
                 if src ! 0 = PInt (- 1) then Inr (ops, push_entry e1 st1)
                 else
                   (case (src ! 0, src ! 1) of
                      (PInt a, PInt b) \<Rightarrow>
                        let off = (a, a + b);
                            e2 = e1\<lparr>pc_offset := Some off\<rparr>;
                            (off', st2) = branch_markers (bnodes path) path off (pc_op e2) st1;
                            (e3, st3) = label_statement inside unit path off' e2 st2
                        in
                        (case revert_jump ops e3 st3 of
                           Inl err \<Rightarrow> Inl err
                         | Inr st4 \<Rightarrow> Inr (ops, push_entry e3 st4))
                    | other \<Rightarrow> Inl TypeError)))"

fun walk ::
  "(offset \<Rightarrow> offset \<Rightarrow> bool) \<Rightarrow> (int \<times> source_unit) list \<Rightarrow> (string \<Rightarrow> offset list) \<Rightarrow>
   pyval list option list \<Rightarrow> string list \<Rightarrow> walk_state \<Rightarrow> py_error + walk_state" where
  "walk inside snodes bnodes [] opcodes st = Inr st"
| "walk inside snodes bnodes (source # rest) opcodes st =
     (case walk_step inside snodes bnodes source opcodes st of
        Inl err \<Rightarrow> Inl err
      | Inr (ops, st') \<Rightarrow> walk inside snodes bnodes rest ops st')"

definition initial_state :: "(string \<Rightarrow> offset list) \<Rightarrow> walk_state" where
  "initial_state snodes =
     \<lparr>count = 0, pc = 0, pc_list = [], first_revert = None, revert_map = [],
      statement_nodes = snodes, statement_map = (\<lambda>p. Map.empty),
      branch_active = (\<lambda>p. []), branch_set = (\<lambda>p. [])\<rparr>"

text \<open>Lines 341-349: the bare revert nodes of one function claim the recorded jumps.\<close>

fun claim_reverts :: "pc_entry list \<Rightarrow> nat list \<Rightarrow> offset list \<Rightarrow> py_error + (pc_entry list \<times> nat list)" where
  "claim_reverts pcs vals [] = Inr (pcs, vals)"
| "claim_reverts pcs vals (off # nodes) =
     (if list_ex (\<lambda>x. pc_offset x = Some off) pcs then claim_reverts pcs vals nodes
      else
        (case vals of
           [] \<Rightarrow> Inl IndexError
         | v # vs \<Rightarrow>
             if length pcs \<le> v then Inl IndexError
             else claim_reverts
                    (pcs[v := (pcs ! v)\<lparr>pc_offset := Some off, pc_jump_revert := True\<rparr>]) vs nodes))"

text \<open>Lines 333-349: the loop over \<^verbatim>\<open>revert_map.items()\<close>.\<close>

fun reconcile ::
  "(int \<times> source_unit) list \<Rightarrow> ((string \<times> string) \<times> nat list) list \<Rightarrow> pc_entry list \<Rightarrow>
   py_error + pc_entry list" where
  "reconcile snodes [] pcs = Inr pcs"
| "reconcile snodes (((path, fn_name), vals) # rest) pcs =
     (case find (\<lambda>u. su_path u = path) (map snd snodes) of
        None \<Rightarrow> Inl StopIteration
      | Some unit \<Rightarrow>
          (case revert_calls unit fn_name of
             None \<Rightarrow> Inl IndexError
           | Some revert_nodes \<Rightarrow>
               (case claim_reverts pcs vals
                       (map fst (filter (\<lambda>(off, has_arguments). \<not> has_arguments) revert_nodes)) of
                  Inl err \<Rightarrow> Inl err
                | Inr (pcs', vals') \<Rightarrow> reconcile snodes rest pcs')))"

text \<open>Lines 351-368: the branch indices and the branch map.\<close>

fun finalize ::
  "(string \<Rightarrow> (offset \<times> bool) list) \<Rightarrow> (string \<times> offset \<times> nat \<times> nat) list \<Rightarrow>
   pc_entry list \<times> (string \<Rightarrow> string \<Rightarrow> (nat \<Rightarrow> (int \<times> int \<times> bool) option) option) \<times> nat \<Rightarrow>
   py_error +
     (pc_entry list \<times> (string \<Rightarrow> string \<Rightarrow> (nat \<Rightarrow> (int \<times> int \<times> bool) option) option) \<times> nat)" where
  "finalize original [] acc = Inr acc"
| "finalize original ((path, off, i0, i1) # rest) (pcs, bmap, cnt) =
     (if length pcs \<le> i0 then Inl IndexError
      else
        let pcs1 = pcs[i0 := (pcs ! i0)\<lparr>pc_branch := Some cnt\<rparr>] in
        if length pcs1 \<le> i1 then Inl IndexError
        else
          let pcs2 = pcs1[i1 := (pcs1 ! i1)\<lparr>pc_branch := Some cnt\<rparr>] in
          (case pc_fn (pcs2 ! i0) of
             None \<Rightarrow> Inl KeyError
           | Some f \<Rightarrow>
               (case find (\<lambda>(o', jump). o' = off) (original path) of
                  None \<Rightarrow> Inl StopIteration
                | Some (o', jump) \<Rightarrow>
                    finalize original rest
                      (pcs2,
                       bmap(path := (bmap path)
                         (f \<mapsto> (case bmap path f of None \<Rightarrow> Map.empty | Some d \<Rightarrow> d)
                                  (cnt \<mapsto> (fst off, snd off, jump)))),
                       cnt + 1))))"

text \<open>
  \<^verbatim>\<open>[(k, x, y) for k, v in branch_set.items() for x, y in v.items()]\<close>; \<open>paths\<close> is the order
  in which the keys of \<^verbatim>\<open>branch_set\<close> come.
\<close>

definition resolved_pairs :: "string list \<Rightarrow> walk_state \<Rightarrow> (string \<times> offset \<times> nat \<times> nat) list" where
  "resolved_pairs paths st =
     concat (map (\<lambda>k. map (\<lambda>(x, y). (k, x, y)) (branch_set st k)) paths)"

text \<open>\<^verbatim>\<open>dict((i.pop('pc'), i) for i in pc_list)\<close>: a later element replaces an earlier one
  with the same program counter.\<close>

definition pc_map_of :: "pc_entry list \<Rightarrow> int \<Rightarrow> pc_entry option" where
  "pc_map_of pcs = foldl (\<lambda>m e. m(pc_pc e \<mapsto> e)) Map.empty pcs"

text \<open>A dictionary with the keys \<open>paths\<close>, as the caller receives it.\<close>

definition keyed_by :: "string list \<Rightarrow> (string \<Rightarrow> 'a) \<Rightarrow> string \<Rightarrow> 'a option" where
  "keyed_by paths f = (\<lambda>p. if p \<in> set paths then Some (f p) else None)"

text \<open>
  \<^verbatim>\<open>generate_coverage_data\<close>.  \<open>contract_nodes\<close> lists \<^verbatim>\<open>contract_node\<close> and its
  dependencies, each as its \<^verbatim>\<open>contract_id\<close> and its parent source unit; \<open>stmt_nodes\<close> and
  \<open>br_nodes\<close> are the dictionaries \<^verbatim>\<open>statement_nodes\<close> and \<^verbatim>\<open>branch_nodes\<close> of the
  caller, a branch node as its offset and its \<^verbatim>\<open>jump\<close> attribute.  Python leaves the
  iteration order of the set \<^verbatim>\<open>paths\<close> to the hashes of the strings; the model takes
  the paths in the order of \<^verbatim>\<open>source_nodes\<close>.  The order only decides which path's
  branches are numbered first.

  In the last loop, \<^verbatim>\<open>source_nodes[path]\<close> subscripts a dictionary whose keys are contract
  ids with a path: a step without \<^verbatim>\<open>fn\<close> raises \<^verbatim>\<open>KeyError\<close> there.
\<close>

definition generate_coverage_data ::
  "(offset \<Rightarrow> offset \<Rightarrow> bool) \<Rightarrow> string \<Rightarrow> string \<Rightarrow> (int \<times> source_unit) list \<Rightarrow>
   (string \<Rightarrow> offset list option) \<Rightarrow> (string \<Rightarrow> (offset \<times> bool) list option) \<Rightarrow>
   py_error +
     ((int \<Rightarrow> pc_entry option) \<times>
      (string \<Rightarrow> (string \<Rightarrow> (nat \<Rightarrow> offset option) option) option) \<times>
      (string \<Rightarrow> (string \<Rightarrow> (nat \<Rightarrow> (int \<times> int \<times> bool) option) option) option))" where
  "generate_coverage_data inside source_map opcodes contract_nodes stmt_nodes br_nodes =
     (if opcodes = [] then Inr (Map.empty, Map.empty, Map.empty)
      else
        (case expand_source_map source_map of
           Inl err \<Rightarrow> Inl err
         | Inr smap \<Rightarrow>
             let ops = split_on CHR '' '' opcodes;
                 snodes = dict_of contract_nodes;
                 paths = remdups (map (\<lambda>(i, u). su_path u) snodes)
             in
             if list_ex (\<lambda>p. stmt_nodes p = None \<or> br_nodes p = None) paths then Inl KeyError
             else
               let working = (\<lambda>p. case stmt_nodes p of None \<Rightarrow> [] | Some xs \<Rightarrow> xs);
                   original = (\<lambda>p. case br_nodes p of None \<Rightarrow> [] | Some xs \<Rightarrow> xs);
                   bnodes = (\<lambda>p. map fst (original p))
               in
               (case walk inside snodes bnodes smap ops (initial_state working) of
                  Inl err \<Rightarrow> Inl err
                | Inr st \<Rightarrow>
                    (case reconcile snodes (revert_map st) (pc_list st) of
                       Inl err \<Rightarrow> Inl err
                     | Inr pcs \<Rightarrow>
                         (case finalize original (resolved_pairs paths st)
                                 (pcs, (\<lambda>p. Map.empty), count st) of
                            Inl err \<Rightarrow> Inl err
                          | Inr (pcs', bmap, cnt) \<Rightarrow>
                              Inr (pc_map_of pcs', keyed_by paths (statement_map st),
                                   keyed_by paths bmap))))))"

text \<open>
  Modelled from the spec: \<^verbatim>\<open>sources.is_inside_offset\<close> is a function of a module that is
  not among the repository's files.  The spec has a statement candidate that "contains this
  offset": the first range lies inside the second.  The definitions above take the function
  as the parameter \<open>inside\<close>; this one instantiates it in the examples.
\<close>

definition is_inside_offset :: "offset \<Rightarrow> offset \<Rightarrow> bool" where
  "is_inside_offset inner outer =
     (fst outer \<le> fst inner \<and> fst inner \<le> snd inner \<and> snd inner \<le> snd outer)"

section \<open>Blank fields, the invariant of the statement map, and example inputs\<close>

text \<open>
  A field of an entry is blank when the entry has no text at its position: the entry has
  fewer fields, or the field is one of the first three and is empty.  Every blank field of a
  later entry takes the value of the preceding expanded entry, and an empty entry is the
  preceding entry.
\<close>

definition field_blank :: "string \<Rightarrow> nat \<Rightarrow> bool" where
  "field_blank entry x =
     (let fs = split_on CHR '':'' entry in length fs \<le> x \<or> (x < 3 \<and> fs ! x = []))"

text \<open>
  The shape of a row of the expanded source map: at least four fields, the first three an
  integer or \<^verbatim>\<open>None\<close>.
\<close>

definition typed_row :: "pyval list \<Rightarrow> bool" where
  "typed_row row \<longleftrightarrow> 4 \<le> length row \<and> (\<forall>x < 3. row ! x = PNone \<or> (\<exists>n. row ! x = PInt n))"



text \<open>
  A source unit for the examples: the function \<^verbatim>\<open>f\<close> spans the offsets \<open>0\<close> to \<open>100\<close> and
  holds two \<^verbatim>\<open>revert()\<close> calls without arguments.  \<open>armed_state\<close> is the state after a first
  step \<^verbatim>\<open>PUSH1 0x1\<close> whose offset \<open>(10, 15)\<close> is a branch candidate.
\<close>

definition example_unit :: source_unit where
  "example_unit =
     \<lparr>su_path = ''a.sol'',
      function_at = (\<lambda>off. if is_inside_offset off (0, 100) then Some ''f'' else None),
      revert_calls = (\<lambda>name. if name = ''f'' then Some [((20, 28), False), ((30, 38), False)]
                              else None)\<rparr>"

definition armed_state :: walk_state where
  "armed_state =
     (initial_state (\<lambda>p. []))
       \<lparr>pc := 2, pc_list := [(new_entry ''PUSH1'' 0)\<lparr>pc_value := Some ''0x1'',
           pc_path := Some ''a.sol'', pc_offset := Some (10, 15)\<rparr>],
        branch_active := (\<lambda>p. if p = ''a.sol'' then [((10, 15), 0)] else [])\<rparr>"

text \<open>
  A stream with a shared revert target: the selector's \<^verbatim>\<open>JUMPDEST PUSH1 0x0 DUP1 REVERT\<close>
  at program counter \<open>0\<close>, then \<^verbatim>\<open>PUSH1 0x0 JUMPI\<close> inside the function \<^verbatim>\<open>f\<close>.
\<close>

definition revert_rows :: "pyval list option list" where
  "revert_rows =
     [Some [PInt (- 1), PInt (- 1), PInt (- 1), PStr ''-''],
      Some [PInt (- 1), PInt (- 1), PInt (- 1), PStr ''-''],
      Some [PInt (- 1), PInt (- 1), PInt (- 1), PStr ''-''],
      Some [PInt (- 1), PInt (- 1), PInt (- 1), PStr ''-''],
      Some [PInt 10, PInt 5, PInt 0, PStr ''-''],
      Some [PInt 50, PInt 3, PInt 0, PStr ''-'']]"

definition revert_opcodes :: "string list" where
  "revert_opcodes = [''JUMPDEST'', ''PUSH1'', ''0x0'', ''DUP1'', ''REVERT'', ''PUSH1'', ''0x0'', ''JUMPI'', '''']"


section \<open>Properties of the decoder\<close>

lemma length_split_on: "length (split_on c s) = Suc (count_list s c)"
  by (induction s) (auto split: list.splits)

lemma length_expand_rows: "expand_rows es = Inr rows \<Longrightarrow> length rows = length es"
  by (induction es arbitrary: rows) (auto split: if_splits sum.splits)

lemma length_fill_from: "fill_from prev es = Inr rows \<Longrightarrow> length rows = length es"
  by (induction prev es arbitrary: rows rule: fill_from.induct) (auto split: sum.splits)

text \<open>
  Claim C9.  Whenever \<^verbatim>\<open>expand_source_map\<close> returns a sequence, its length is the number
  of entries that the separator \<^verbatim>\<open>;\<close> cuts the input string into: one more than the number
  of semicolons in the string.
\<close>

theorem expand_source_map_length:
  "expand_source_map s = Inr rows \<Longrightarrow> length rows = Suc (count_list s CHR '';'')"
proof -
  assume r: "expand_source_map s = Inr rows"
  have n: "length (split_on CHR '';'' s) = Suc (count_list s CHR '';'')"
    by (rule length_split_on)
  from r obtain first rest rows' where
    e: "expand_rows (split_on CHR '';'' s) = Inr (first # rest)" and
    f: "fill_from first rest = Inr rows'" and
    rows: "rows = first # rows'"
    using n
    by (auto simp: expand_source_map_def split: sum.splits list.splits dest: length_expand_rows)
  from e have "length (first # rest) = length (split_on CHR '';'' s)"
    by (rule length_expand_rows)
  moreover from f have "length rows' = length rest"
    by (rule length_fill_from)
  ultimately show ?thesis
    using n rows by simp
qed

theorem expand_source_map_length_witness:
  "expand_source_map ''0:10:0:-;10:5:0:i;;15::1'' =
     Inr [Some [PInt 0, PInt 10, PInt 0, PStr ''-''], Some [PInt 10, PInt 5, PInt 0, PStr ''i''],
          Some [PInt 10, PInt 5, PInt 0, PStr ''i''], Some [PInt 15, PInt 5, PInt 1, PStr ''i'']] \<and>
   length [Some [PInt 0, PInt 10, PInt 0, PStr ''-''], Some [PInt 10, PInt 5, PInt 0, PStr ''i''],
          Some [PInt 10, PInt 5, PInt 0, PStr ''i''], Some [PInt 15, PInt 5, PInt 1, PStr ''i'']] =
     Suc (count_list ''0:10:0:-;10:5:0:i;;15::1'' CHR '';'')"
proof -
  have r: "expand_source_map ''0:10:0:-;10:5:0:i;;15::1'' =
     Inr [Some [PInt 0, PInt 10, PInt 0, PStr ''-''], Some [PInt 10, PInt 5, PInt 0, PStr ''i''],
          Some [PInt 10, PInt 5, PInt 0, PStr ''i''], Some [PInt 15, PInt 5, PInt 1, PStr ''i'']]"
    by code_simp
  from r expand_source_map_length [OF r] show ?thesis
    by (rule conjI)
qed

lemma int_fields_blank:
  "int_fields fs = Inr vs \<Longrightarrow>
   length vs = length fs \<and> (\<forall>x < length fs. fs ! x = [] \<longrightarrow> vs ! x = PNone)"
proof (induction fs arbitrary: vs)
  case Nil
  then show ?case by simp
next
  case (Cons i rest)
  from Cons.prems obtain v vs' where
    r: "int_fields rest = Inr vs'" and vs: "vs = v # vs'" and v: "i = [] \<longrightarrow> v = PNone"
    by (auto split: if_splits option.splits sum.splits)
  from Cons.IH [OF r] vs v show ?case
    by (auto simp: nth_Cons split: nat.splits)
qed

lemma expand_row_blank:
  assumes "expand_row entry = Inr row"
  shows "4 \<le> length row \<and> (\<forall>x < 4. field_blank entry x \<longrightarrow> row ! x = PNone)"
proof -
  let ?fs = "split_on CHR '':'' entry"
  from assms obtain ints where
    i: "int_fields (take 3 ?fs) = Inr ints" and
    row: "row = ints @ map PStr (drop 3 ?fs) @ replicate (4 - length ?fs) PNone"
    by (auto simp: expand_row_def Let_def split: sum.splits)
  note ib = int_fields_blank [OF i]
  have len: "length ints = min 3 (length ?fs)"
    using ib by simp
  have "4 \<le> length row"
    using row len by auto
  moreover have "row ! x = PNone" if x: "x < 4" and b: "field_blank entry x" for x
  proof (cases "x < length ?fs")
    case True
    with b have x3: "x < 3" and e: "?fs ! x = []"
      by (auto simp: field_blank_def Let_def)
    with True ib have "ints ! x = PNone"
      by simp
    with x3 True len show ?thesis
      by (simp add: row nth_append)
  next
    case False
    then have short: "length ?fs \<le> x" by simp
    with x have l3: "length ?fs \<le> 3" by simp
    with len have li: "length ints = length ?fs" by simp
    from l3 have "row = ints @ replicate (4 - length ?fs) PNone"
      by (simp add: row)
    with short li x show ?thesis
      by (simp add: nth_append)
  qed
  ultimately show ?thesis by blast
qed

lemma fill_fields_nth:
  "fill_fields prev row xs = Inr row' \<Longrightarrow> distinct xs \<Longrightarrow>
   length row' = length row \<and>
   (\<forall>x < length row.
      (x \<in> set xs \<and> row ! x = PNone \<longrightarrow> (\<exists>p. prev = Some p \<and> row' ! x = p ! x)) \<and>
      (\<not> (x \<in> set xs \<and> row ! x = PNone) \<longrightarrow> row' ! x = row ! x))"
proof (induction prev row xs arbitrary: row' rule: fill_fields.induct)
  case (1 prev row)
  then show ?case by simp
next
  case (2 prev row y ys)
  from "2.prems"(2) have d: "distinct ys" "y \<notin> set ys"
    by simp_all
  show ?case
  proof (cases "row ! y = PNone")
    case yn: True
    with "2.prems"(1) obtain p where p: "prev = Some p" and y: "\<not> length row \<le> y" "\<not> length p \<le> y"
      and r: "fill_fields prev (row[y := p ! y]) ys = Inr row'"
      by (auto split: if_splits option.splits)
    from "2.IH"(1) [OF y(1) yn p y(2) r d(1)] d(2) p y yn show ?thesis
      by (auto simp: nth_list_update split: if_splits)
  next
    case False
    with "2.prems"(1) have y: "\<not> length row \<le> y" and r: "fill_fields prev row ys = Inr row'"
      by (auto split: if_splits)
    from "2.IH"(2) [OF y False r d(1)] d(2) False show ?thesis
      by auto
  qed
qed

lemma expand_rows_nth:
  "expand_rows es = Inr raw \<Longrightarrow> i < length es \<Longrightarrow>
   (es ! i = [] \<longrightarrow> raw ! i = None) \<and>
   (es ! i \<noteq> [] \<longrightarrow> (\<exists>row. expand_row (es ! i) = Inr row \<and> raw ! i = Some row))"
proof (induction es arbitrary: raw i)
  case Nil
  then show ?case by simp
next
  case (Cons e rest)
  from Cons.prems(1) obtain r raw' where
    raw: "raw = r # raw'" and rest: "expand_rows rest = Inr raw'" and
    r: "e = [] \<longrightarrow> r = None" "e \<noteq> [] \<longrightarrow> (\<exists>row. expand_row e = Inr row \<and> r = Some row)"
    by (auto split: if_splits sum.splits)
  show ?case
  proof (cases i)
    case 0
    with raw r show ?thesis by simp
  next
    case (Suc j)
    with Cons.prems(2) Cons.IH [OF rest, of j] raw show ?thesis
      by simp
  qed
qed

lemma fill_from_nth:
  "fill_from prev raw = Inr rows \<Longrightarrow> i < length raw \<Longrightarrow>
   (raw ! i = None \<longrightarrow> rows ! i = (prev # rows) ! i) \<and>
   (\<forall>row. raw ! i = Some row \<longrightarrow>
      (\<exists>row'. fill_fields ((prev # rows) ! i) row [0, 1, 2, 3] = Inr row' \<and> rows ! i = Some row'))"
proof (induction prev raw arbitrary: rows i rule: fill_from.induct)
  case (1 prev)
  then show ?case by simp
next
  case (2 prev rest)
  from "2.prems"(1) obtain rows' where
    r: "fill_from prev rest = Inr rows'" and rows: "rows = prev # rows'"
    by (auto split: sum.splits)
  show ?case
  proof (cases i)
    case 0
    with rows show ?thesis by simp
  next
    case (Suc j)
    with "2.prems"(2) "2.IH" [OF r, of j] rows show ?thesis
      by simp
  qed
next
  case (3 prev row rest)
  from "3.prems"(1) obtain row' rows' where
    f: "fill_fields prev row [0, 1, 2, 3] = Inr row'" and
    r: "fill_from (Some row') rest = Inr rows'" and rows: "rows = Some row' # rows'"
    by (auto split: sum.splits)
  show ?case
  proof (cases i)
    case 0
    with rows f show ?thesis by simp
  next
    case (Suc j)
    with "3.prems"(2) "3.IH" [OF f r, of j] rows show ?thesis
      by simp
  qed
qed

lemma expand_source_map_inherits:
  assumes e: "expand_source_map s = Inr rows" and i: "Suc i < length rows"
  shows "(split_on CHR '';'' s ! Suc i = [] \<longrightarrow> rows ! Suc i = rows ! i) \<and>
         (split_on CHR '';'' s ! Suc i \<noteq> [] \<longrightarrow>
            (\<forall>x < 4. field_blank (split_on CHR '';'' s ! Suc i) x \<longrightarrow>
               (\<exists>r p. rows ! Suc i = Some r \<and> rows ! i = Some p \<and> r ! x = p ! x)))"
proof -
  let ?es = "split_on CHR '';'' s"
  from e obtain first raw rows' where
    er: "expand_rows ?es = Inr (first # raw)" and
    ff: "fill_from first raw = Inr rows'" and
    rows: "rows = first # rows'"
    using i by (auto simp: expand_source_map_def split: sum.splits list.splits)
  have le: "length ?es = length (first # raw)" "length rows' = length raw"
    using length_expand_rows [OF er] length_fill_from [OF ff] by simp_all
  with i rows have ir: "i < length raw" "Suc i < length ?es"
    by simp_all
  note en = expand_rows_nth [OF er ir(2)]
  note fn = fill_from_nth [OF ff ir(1)]
  have prev: "(first # rows') ! i = rows ! i" and cur: "rows' ! i = rows ! Suc i"
    using rows by simp_all
  show ?thesis
  proof (intro conjI impI allI)
    assume "?es ! Suc i = []"
    with en have "raw ! i = None" by simp
    with fn prev cur show "rows ! Suc i = rows ! i" by simp
  next
    fix x assume ne: "?es ! Suc i \<noteq> []" and x: "x < 4" and b: "field_blank (?es ! Suc i) x"
    from en ne obtain row where row: "expand_row (?es ! Suc i) = Inr row" "raw ! i = Some row"
      by auto
    from expand_row_blank [OF row(1)] x b have rx: "4 \<le> length row" "row ! x = PNone"
      by simp_all
    from fn row(2) prev cur obtain row' where
      f: "fill_fields (rows ! i) row [0, 1, 2, 3] = Inr row'" and r': "rows ! Suc i = Some row'"
      by auto
    have xs: "x \<in> set [0, 1, 2, 3]" "x < length row"
      using x rx(1) by auto
    have "distinct [0, 1, 2, 3 :: nat]"
      by simp
    from fill_fields_nth [OF f this] have
      "\<forall>x < length row. x \<in> set [0, 1, 2, 3] \<and> row ! x = PNone \<longrightarrow>
         (\<exists>p. rows ! i = Some p \<and> row' ! x = p ! x)"
      by blast
    with xs rx(2) obtain p where "rows ! i = Some p" "row' ! x = p ! x"
      by blast
    with r' show "\<exists>r p. rows ! Suc i = Some r \<and> rows ! i = Some p \<and> r ! x = p ! x"
      by simp
  qed
qed

text \<open>
  Claim C1.  The code at an entry whose fourth field is written out and empty: the first
  three fields inherit when empty, and a fourth field that is missing inherits too
  (\<open>expand_source_map_inherits\<close> above), but a fourth field that is present and empty stays
  the empty string instead of taking the jump type \<^verbatim>\<open>-\<close> of the preceding entry.
\<close>

theorem expand_source_map_explicit_empty_jump:
  "expand_source_map ''0:1:2:-;:4::'' =
     Inr [Some [PInt 0, PInt 1, PInt 2, PStr ''-''], Some [PInt 0, PInt 4, PInt 2, PStr '''']]"
  by code_simp

text \<open>Every row that \<^verbatim>\<open>expand_source_map\<close> returns has this shape, so the walk reads an
  integer or \<^verbatim>\<open>None\<close> in the fields that it compares with \<open>-1\<close> and adds.\<close>

lemma int_fields_typed:
  "int_fields fs = Inr vs \<Longrightarrow> \<forall>v \<in> set vs. v = PNone \<or> (\<exists>n. v = PInt n)"
proof (induction fs arbitrary: vs)
  case Nil
  then show ?case by simp
next
  case (Cons i rest)
  from Cons.prems obtain v vs' where
    r: "int_fields rest = Inr vs'" and vs: "vs = v # vs'" and v: "v = PNone \<or> (\<exists>n. v = PInt n)"
    by (auto split: if_splits option.splits sum.splits)
  from Cons.IH [OF r] vs v show ?case
    by auto
qed

lemma expand_row_typed:
  assumes "expand_row entry = Inr row"
  shows "4 \<le> length row \<and> (\<forall>x < 3. row ! x = PNone \<or> (\<exists>n. row ! x = PInt n))"
proof -
  let ?fs = "split_on CHR '':'' entry"
  from assms obtain ints where
    i: "int_fields (take 3 ?fs) = Inr ints" and
    row: "row = ints @ map PStr (drop 3 ?fs) @ replicate (4 - length ?fs) PNone"
    by (auto simp: expand_row_def Let_def split: sum.splits)
  have len: "length ints = min 3 (length ?fs)"
    using int_fields_blank [OF i] by simp
  have "row ! x = PNone \<or> (\<exists>n. row ! x = PInt n)" if x: "x < 3" for x
  proof (cases "x < length ints")
    case True
    then have "ints ! x \<in> set ints" by simp
    with int_fields_typed [OF i] True show ?thesis
      by (auto simp: row nth_append)
  next
    case False
    with len x have short: "length ?fs \<le> 3" "length ints = length ?fs"
      by auto
    then have "row = ints @ replicate (4 - length ?fs) PNone"
      by (simp add: row)
    with False x short show ?thesis
      by (simp add: nth_append)
  qed
  moreover have "4 \<le> length row"
    using row len by auto
  ultimately show ?thesis by blast
qed

lemma fill_fields_typed:
  assumes f: "fill_fields prev row [0, 1, 2, 3] = Inr row'" and r: "typed_row row"
    and p: "\<forall>q. prev = Some q \<longrightarrow> typed_row q"
  shows "typed_row row'"
proof -
  have "distinct [0, 1, 2, 3 :: nat]" by simp
  note n = fill_fields_nth [OF f this]
  have "row' ! x = PNone \<or> (\<exists>k. row' ! x = PInt k)" if x: "x < 3" for x
  proof (cases "row ! x = PNone")
    case True
    from x r have "x < length row" "x \<in> set [0, 1, 2, 3]"
      by (auto simp: typed_row_def)
    with n True obtain q where "prev = Some q" "row' ! x = q ! x"
      by blast
    with p x show ?thesis
      by (auto simp: typed_row_def)
  next
    case False
    from x r have "x < length row"
      by (auto simp: typed_row_def)
    with n False have "row' ! x = row ! x"
      by blast
    with r x show ?thesis
      by (auto simp: typed_row_def)
  qed
  with n r show ?thesis
    by (simp add: typed_row_def)
qed

lemma fill_from_typed:
  "fill_from prev raw = Inr rows \<Longrightarrow> \<forall>q. prev = Some q \<longrightarrow> typed_row q \<Longrightarrow>
   \<forall>row. Some row \<in> set raw \<longrightarrow> typed_row row \<Longrightarrow>
   \<forall>row. Some row \<in> set rows \<longrightarrow> typed_row row"
proof (induction prev raw arbitrary: rows rule: fill_from.induct)
  case (1 prev)
  then show ?case by simp
next
  case (2 prev rest)
  from "2.prems"(1) obtain rows' where
    r: "fill_from prev rest = Inr rows'" and rows: "rows = prev # rows'"
    by (auto split: sum.splits)
  from "2.IH" [OF r "2.prems"(2)] "2.prems"(2,3) rows show ?case
    by auto
next
  case (3 prev row rest)
  from "3.prems"(1) obtain row' rows' where
    f: "fill_fields prev row [0, 1, 2, 3] = Inr row'" and
    r: "fill_from (Some row') rest = Inr rows'" and rows: "rows = Some row' # rows'"
    by (auto split: sum.splits)
  have t: "typed_row row'"
    using fill_fields_typed [OF f] "3.prems"(2,3) by simp
  from "3.IH" [OF f r] t "3.prems"(3) rows show ?case
    by auto
qed

lemma expand_rows_typed:
  "expand_rows es = Inr raw \<Longrightarrow> \<forall>row. Some row \<in> set raw \<longrightarrow> typed_row row"
proof (induction es arbitrary: raw)
  case Nil
  then show ?case by simp
next
  case (Cons e rest)
  from Cons.prems obtain r raw' where
    raw: "raw = r # raw'" and rest: "expand_rows rest = Inr raw'" and
    r: "\<forall>row. r = Some row \<longrightarrow> expand_row e = Inr row"
    by (auto split: if_splits sum.splits)
  from Cons.IH [OF rest] raw r show ?case
    by (auto simp: typed_row_def dest: expand_row_typed)
qed

lemma expand_source_map_typed:
  assumes "expand_source_map s = Inr rows" and "Some row \<in> set rows"
  shows "typed_row row"
proof -
  from assms(1) obtain first raw rows' where
    er: "expand_rows (split_on CHR '';'' s) = Inr (first # raw)" and
    ff: "fill_from first raw = Inr rows'" and
    rows: "rows = first # rows'"
    using assms(2) by (auto simp: expand_source_map_def split: sum.splits list.splits)
  note t = expand_rows_typed [OF er]
  from fill_from_typed [OF ff] t have "\<forall>row. Some row \<in> set rows' \<longrightarrow> typed_row row"
    by simp
  with t rows assms(2) show ?thesis
    by auto
qed

section \<open>Properties of the branch extraction\<close>



section \<open>Properties of the coverage generation\<close>

text \<open>
  Claim C10.  With an empty opcode string, \<^verbatim>\<open>generate_coverage_data\<close> returns three
  empty dictionaries, whatever the source map, the syntax tree and the candidate sets are:
  none of them is read, so not even a source map that cannot be expanded raises.
\<close>

theorem generate_coverage_data_no_opcodes:
  "generate_coverage_data inside source_map [] contract_nodes stmt_nodes br_nodes =
     Inr (Map.empty, Map.empty, Map.empty)"
  by (simp add: generate_coverage_data_def)

section \<open>Properties of the correlation walk\<close>

lemma map_of_dict_set: "map_of (dict_set d k v) = (map_of d)(k \<mapsto> v)"
  by (induction d) (auto simp: fun_eq_iff)

lemma keys_dict_set: "fst ` set (dict_set d k v) = insert k (fst ` set d)"
  by (simp add: dom_map_of_conv_image_fst [symmetric] map_of_dict_set)

lemma distinct_dict_set: "distinct (map fst d) \<Longrightarrow> distinct (map fst (dict_set d k v))"
proof (induction d)
  case Nil
  then show ?case by simp
next
  case (Cons a d)
  obtain k' v' where a: "a = (k', v')" by (cases a)
  show ?case
  proof (cases "k' = k")
    case True
    with Cons a show ?thesis by simp
  next
    case False
    have "k' \<notin> fst ` set (dict_set d k v)"
      using Cons.prems a False by (simp add: keys_dict_set)
    with Cons a False show ?thesis by simp
  qed
qed

lemma resolve_all:
  "distinct (map fst act) \<Longrightarrow> (off, armed) \<in> set act \<Longrightarrow>
   map_of (foldl (\<lambda>d (o', a). dict_set d o' (a, idx)) d0 act) off = Some (armed, idx)"
proof (induction act arbitrary: d0 rule: rev_induct)
  case Nil
  then show ?case by simp
next
  case (snoc x act)
  obtain o' a where x: "x = (o', a)" by (cases x)
  show ?case
  proof (cases "off = o'")
    case True
    with snoc.prems x have "armed = a"
      by (auto simp: image_iff)
    with True x show ?thesis by (simp add: map_of_dict_set)
  next
    case False
    with snoc x show ?thesis by (auto simp: map_of_dict_set)
  qed
qed

lemma fetch_frame:
  "fetch source opcodes st = Inr (src, e, ops, st1) \<Longrightarrow>
   source = Some src \<and> pc_list st1 = pc_list st \<and> branch_active st1 = branch_active st \<and>
   branch_set st1 = branch_set st \<and> statement_nodes st1 = statement_nodes st \<and>
   statement_map st1 = statement_map st \<and> count st1 = count st \<and>
   revert_map st1 = revert_map st \<and>
   pc_op e = hd opcodes \<and> pc_path e = None \<and> pc_offset e = None \<and> pc_fn e = None \<and>
   pc_statement e = None \<and> pc_branch e = None"
  by (auto simp: fetch_def new_entry_def Let_def split: list.splits option.splits if_splits)

lemma label_statement_frame:
  "label_statement inside unit path off e st = (e', st') \<Longrightarrow>
   pc_list st' = pc_list st \<and> branch_active st' = branch_active st \<and>
   branch_set st' = branch_set st \<and> revert_map st' = revert_map st \<and>
   first_revert st' = first_revert st \<and>
   pc_op e' = pc_op e \<and> pc_path e' = pc_path e \<and> pc_offset e' = pc_offset e \<and>
   pc_value e' = pc_value e"
  by (auto simp: label_statement_def Let_def split: list.splits option.splits if_splits)

lemma revert_jump_frame:
  "revert_jump ops e st = Inr st' \<Longrightarrow>
   pc_list st' = pc_list st \<and> branch_active st' = branch_active st \<and>
   branch_set st' = branch_set st \<and> statement_nodes st' = statement_nodes st \<and>
   statement_map st' = statement_map st \<and> count st' = count st \<and>
   first_revert st' = first_revert st"
  by (auto simp: revert_jump_def split: list.splits option.splits if_splits prod.splits)

text \<open>
  Claim C2, as amended.  At a step whose opcode is \<^verbatim>\<open>JUMPI\<close>, whose source map entry
  names a source unit and a start offset (neither is \<open>-1\<close>), and whose path has a non-empty
  active set, every active offset of the path is recorded in the resolved set as the pair of
  its armed index and the index of this step, and the active set of the path is empty after
  the step.  The keys of the dictionary \<^verbatim>\<open>branch_active[path]\<close> are distinct, as in
  every state that the walk reaches (\<open>walk_keys\<close> below).
\<close>

theorem jumpi_resolves_active:
  assumes step: "walk_step inside snodes bnodes (Some src) (''JUMPI'' # ops) st = Inr (ops', st')"
    and unit: "src ! 2 = PInt n" "n \<noteq> - 1" "map_of snodes n = Some unit"
    and start: "src ! 0 \<noteq> PInt (- 1)"
    and active: "branch_active st (su_path unit) \<noteq> []"
    and keys: "distinct (map fst (branch_active st (su_path unit)))"
  shows "branch_active st' (su_path unit) = [] \<and>
         (\<forall>(off, armed) \<in> set (branch_active st (su_path unit)).
            map_of (branch_set st' (su_path unit)) off = Some (armed, length (pc_list st))) \<and>
         length (pc_list st') = length (pc_list st) + 1 \<and>
         pc_op (pc_list st' ! length (pc_list st)) = ''JUMPI''"
proof -
  let ?p = "su_path unit"
  from step obtain e ops1 st1 where f: "fetch (Some src) (''JUMPI'' # ops) st = Inr (src, e, ops1, st1)"
    by (auto simp: walk_step_def split: sum.splits dest: fetch_frame)
  note ff = fetch_frame [OF f]
  from step f unit start obtain a b where ab: "src ! 0 = PInt a" "src ! 1 = PInt b"
    by (auto simp: walk_step_def Let_def split: pyval.splits prod.splits sum.splits)
  let ?off = "(a, a + b)"
  let ?e2 = "e\<lparr>pc_path := Some ?p, pc_offset := Some ?off\<rparr>"
  obtain off' st2 where bm: "branch_markers (bnodes ?p) ?p ?off ''JUMPI'' st1 = (off', st2)"
    by (cases "branch_markers (bnodes ?p) ?p ?off ''JUMPI'' st1")
  obtain e3 st3 where ls: "label_statement inside unit ?p off' ?e2 st2 = (e3, st3)"
    by (cases "label_statement inside unit ?p off' ?e2 st2")
  from step f unit start ab bm ls ff obtain st4 where
    rj: "revert_jump ops1 e3 st3 = Inr st4" and st': "st' = push_entry e3 st4"
    by (auto simp: walk_step_def Let_def split: sum.splits)
  note lf = label_statement_frame [OF ls]
  note rf = revert_jump_frame [OF rj]
  from bm active ff have
    a2: "branch_active st2 ?p = []" and
    s2: "branch_set st2 ?p = foldl (\<lambda>d (o', armed). dict_set d o' (armed, length (pc_list st)))
           (branch_set st ?p) (branch_active st ?p)" and
    l2: "pc_list st2 = pc_list st"
    by (auto simp: branch_markers_def Let_def)
  have "branch_active st' ?p = []"
    using st' rf lf a2 by (simp add: push_entry_def)
  moreover have "map_of (branch_set st' ?p) off = Some (armed, length (pc_list st))"
    if "(off, armed) \<in> set (branch_active st ?p)" for off armed
    using st' rf lf s2 resolve_all [OF keys that] by (simp add: push_entry_def)
  moreover have "length (pc_list st') = length (pc_list st) + 1"
    using st' rf lf l2 by (simp add: push_entry_def)
  moreover have "pc_op (pc_list st' ! length (pc_list st)) = ''JUMPI''"
    using st' rf lf l2 ff by (simp add: push_entry_def)
  ultimately show ?thesis by auto
qed

lemma armed_state_reached: "walk is_inside_offset [(0, example_unit)] (\<lambda>p. [(10, 15)])
             [Some [PInt 10, PInt 5, PInt 0, PStr ''-'']] [''PUSH1'', ''0x1'', ''JUMPI'', '''']
             (initial_state (\<lambda>p. [])) = Inr armed_state"
  by (simp add: walk_step_def fetch_def Let_def new_entry_def initial_state_def armed_state_def
      example_unit_def branch_markers_def label_statement_def revert_jump_def push_entry_def
      py_int_def py_strip_def py_nat_def is_digit_def is_space_def digit_val_def dict_del_def
      fun_eq_iff)

theorem jumpi_resolves_active_witness:
  "\<not> isl (walk_step is_inside_offset [(0, example_unit)] (\<lambda>p. [(10, 15)])
            (Some [PInt 50, PInt 3, PInt 0, PStr ''-'']) [''JUMPI'', ''''] armed_state) \<and>
   (case walk_step is_inside_offset [(0, example_unit)] (\<lambda>p. [(10, 15)])
            (Some [PInt 50, PInt 3, PInt 0, PStr ''-'']) [''JUMPI'', ''''] armed_state of
      Inl err \<Rightarrow> True
    | Inr (ops', st') \<Rightarrow>
        branch_active st' ''a.sol'' = [] \<and>
        map_of (branch_set st' ''a.sol'') (10, 15) = Some (0, 1))"
proof -
  let ?step = "walk_step is_inside_offset [(0, example_unit)] (\<lambda>p. [(10, 15)])
            (Some [PInt 50, PInt 3, PInt 0, PStr ''-'']) [''JUMPI'', ''''] armed_state"
  have ok: "\<not> isl ?step"
    by code_simp
  then obtain ops' st' where r: "?step = Inr (ops', st')"
    by (cases ?step) auto
  have u: "su_path example_unit = ''a.sol''"
    by (simp add: example_unit_def)
  have a: "branch_active armed_state ''a.sol'' = [((10, 15), 0)]"
    and l: "length (pc_list armed_state) = 1"
    by (simp_all add: armed_state_def)
  from jumpi_resolves_active [OF r, of 0 example_unit]
  have "branch_active st' ''a.sol'' = [] \<and>
        (\<forall>(off, armed) \<in> set [((10, 15), 0)]. map_of (branch_set st' ''a.sol'') off = Some (armed, 1))"
    by (simp add: u a l)
  with ok r show ?thesis by simp
qed

text \<open>
  Claim C2 as stated fails at a \<^verbatim>\<open>JUMPI\<close> step whose entry names the source unit but has
  the start offset \<open>-1\<close>: the iteration ends at \<^verbatim>\<open>continue\<close> before the branch markers, so
  the branch armed at step \<open>0\<close> stays active and nothing is resolved.
\<close>

theorem jumpi_without_offset_counterexample:
  "(case walk is_inside_offset [(0, example_unit)] (\<lambda>p. [(10, 15)])
           [Some [PInt 10, PInt 5, PInt 0, PStr ''-''], Some [PInt (- 1), PInt 5, PInt 0, PStr ''-'']]
           [''PUSH1'', ''0x1'', ''JUMPI'', ''''] (initial_state (\<lambda>p. [])) of
      Inl err \<Rightarrow> False
    | Inr st \<Rightarrow>
        pc_op (pc_list st ! 1) = ''JUMPI'' \<and> pc_path (pc_list st ! 1) = Some ''a.sol'' \<and>
        branch_active st ''a.sol'' = [((10, 15), 0)] \<and> branch_set st ''a.sol'' = [])"
  by code_simp

lemma branch_markers_frame:
  "branch_markers bn path off opc st = (off', st') \<Longrightarrow>
   pc_list st' = pc_list st \<and> statement_nodes st' = statement_nodes st \<and>
   statement_map st' = statement_map st \<and> count st' = count st \<and>
   revert_map st' = revert_map st \<and> first_revert st' = first_revert st"
  by (auto simp: branch_markers_def Let_def split: if_splits)

lemma walk_step_cases:
  assumes "walk_step inside snodes bnodes source opcodes st = Inr (ops', st')"
  obtains
    (no_source) src e st1 where
      "fetch source opcodes st = Inr (src, e, ops', st1)" "src ! 2 = PInt (- 1)"
      "st' = push_entry e st1"
  | (no_offset) src e st1 n unit where
      "fetch source opcodes st = Inr (src, e, ops', st1)" "src ! 2 = PInt n" "n \<noteq> - 1"
      "map_of snodes n = Some unit" "src ! 0 = PInt (- 1)"
      "st' = push_entry (e\<lparr>pc_path := Some (su_path unit)\<rparr>) st1"
  | (full) src e st1 n unit a b off' st2 e3 st3 st4 where
      "fetch source opcodes st = Inr (src, e, ops', st1)" "src ! 2 = PInt n" "n \<noteq> - 1"
      "map_of snodes n = Some unit" "src ! 0 = PInt a" "a \<noteq> - 1" "src ! 1 = PInt b"
      "branch_markers (bnodes (su_path unit)) (su_path unit) (a, a + b) (pc_op e) st1 = (off', st2)"
      "label_statement inside unit (su_path unit) off'
         (e\<lparr>pc_path := Some (su_path unit), pc_offset := Some (a, a + b)\<rparr>) st2 = (e3, st3)"
      "revert_jump ops' e3 st3 = Inr st4" "st' = push_entry e3 st4"
proof -
  from assms obtain src e ops1 st1 where f: "fetch source opcodes st = Inr (src, e, ops1, st1)"
    by (auto simp: walk_step_def split: sum.splits)
  show thesis
  proof (cases "src ! 2 = PInt (- 1)")
    case True
    with assms f no_source show ?thesis
      by (auto simp: walk_step_def)
  next
    case ns: False
    with assms f obtain n unit where u: "src ! 2 = PInt n" "n \<noteq> - 1" "map_of snodes n = Some unit"
      by (auto simp: walk_step_def split: pyval.splits option.splits)
    show ?thesis
    proof (cases "src ! 0 = PInt (- 1)")
      case True
      with assms f u no_offset show ?thesis
        by (auto simp: walk_step_def Let_def)
    next
      case False
      with assms f u obtain a b where ab: "src ! 0 = PInt a" "a \<noteq> - 1" "src ! 1 = PInt b"
        by (auto simp: walk_step_def Let_def split: pyval.splits)
      obtain off' st2 where
        bm: "branch_markers (bnodes (su_path unit)) (su_path unit) (a, a + b) (pc_op e) st1 = (off', st2)"
        by (cases "branch_markers (bnodes (su_path unit)) (su_path unit) (a, a + b) (pc_op e) st1")
      obtain e3 st3 where
        ls: "label_statement inside unit (su_path unit) off'
               (e\<lparr>pc_path := Some (su_path unit), pc_offset := Some (a, a + b)\<rparr>) st2 = (e3, st3)"
        by (cases "label_statement inside unit (su_path unit) off'
               (e\<lparr>pc_path := Some (su_path unit), pc_offset := Some (a, a + b)\<rparr>) st2")
      from assms f u ab bm ls obtain st4 where
        "revert_jump ops1 e3 st3 = Inr st4" "st' = push_entry e3 st4" "ops' = ops1"
        by (auto simp: walk_step_def Let_def split: sum.splits)
      with f u ab bm ls full show ?thesis
        by blast
    qed
  qed
qed

text \<open>The keys of \<^verbatim>\<open>branch_active[path]\<close> stay distinct along the walk.\<close>

lemma walk_step_keys:
  assumes "\<forall>p. distinct (map fst (branch_active st p))"
    and "walk_step inside snodes bnodes source opcodes st = Inr (ops', st')"
  shows "\<forall>p. distinct (map fst (branch_active st' p))"
  using assms(2)
proof (cases rule: walk_step_cases)
  case (no_source src e st1)
  with fetch_frame [OF no_source(1)] assms(1) show ?thesis
    by (simp add: push_entry_def)
next
  case (no_offset src e st1 n unit)
  with fetch_frame [OF no_offset(1)] assms(1) show ?thesis
    by (simp add: push_entry_def)
next
  case (full src e st1 n unit a b off' st2 e3 st3 st4)
  have "\<forall>p. distinct (map fst (branch_active st1 p))"
    using fetch_frame [OF full(1)] assms(1) by simp
  then have "\<forall>p. distinct (map fst (branch_active st2 p))"
    using full(8) by (auto simp: branch_markers_def Let_def distinct_dict_set split: if_splits)
  then show ?thesis
    using label_statement_frame [OF full(9)] revert_jump_frame [OF full(10)] full(11)
    by (simp add: push_entry_def)
qed

lemma walk_keys:
  "\<forall>p. distinct (map fst (branch_active st p)) \<Longrightarrow>
   walk inside snodes bnodes rows ops st = Inr st' \<Longrightarrow>
   \<forall>p. distinct (map fst (branch_active st' p))"
proof (induction rows arbitrary: ops st)
  case Nil
  then show ?case by simp
next
  case (Cons source rest)
  from Cons.prems(2) obtain ops1 st1 where
    s: "walk_step inside snodes bnodes source ops st = Inr (ops1, st1)" and
    w: "walk inside snodes bnodes rest ops1 st1 = Inr st'"
    by (auto split: sum.splits)
  from Cons.IH [OF walk_step_keys [OF Cons.prems(1) s] w] show ?case .
qed

text \<open>
  Claim C6, as amended.  At a step that carries a path and an offset, whose literal value
  equals \<^verbatim>\<open>first_revert\<close> and whose next opcode is \<^verbatim>\<open>JUMP\<close> or \<^verbatim>\<open>JUMPI\<close>, the step
  has a function label, and the index appended to the list of (path, function) is
  \<^verbatim>\<open>len(pc_list)\<close>: the index of the step plus one, which is the index that the following
  jump instruction gets.
\<close>

theorem revert_jump_records_next_index:
  assumes step: "walk_step inside snodes bnodes source opcodes st = Inr (ops', st')"
    and v: "pc_value (last (pc_list st')) = Some v" and fr: "first_revert st' = Some v"
    and nxt: "ops' = nxt # rest" and j: "nxt = ''JUMP'' \<or> nxt = ''JUMPI''"
    and p: "pc_path (last (pc_list st')) = Some p"
    and off: "pc_offset (last (pc_list st')) = Some off"
  shows "length (pc_list st') = length (pc_list st) + 1 \<and>
         (\<exists>f. pc_fn (last (pc_list st')) = Some f \<and>
              map_of (revert_map st') (p, f) =
                Some ((case map_of (revert_map st) (p, f) of None \<Rightarrow> [] | Some vs \<Rightarrow> vs) @
                      [length (pc_list st) + 1]))"
  using step
proof (cases rule: walk_step_cases)
  case (no_source src e st1)
  with off fetch_frame [OF no_source(1)] show ?thesis
    by (simp add: push_entry_def)
next
  case (no_offset src e st1 n unit)
  with off fetch_frame [OF no_offset(1)] show ?thesis
    by (simp add: push_entry_def)
next
  case (full src e st1 n unit a b off' st2 e3 st3 st4)
  note ff = fetch_frame [OF full(1)]
  note bf = branch_markers_frame [OF full(8)]
  note lf = label_statement_frame [OF full(9)]
  note rf = revert_jump_frame [OF full(10)]
  have e3: "last (pc_list st') = e3" and len: "pc_list st4 = pc_list st"
    using full(11) rf lf bf ff by (simp_all add: push_entry_def)
  have v3: "pc_value e3 = Some v" and p3: "pc_path e3 = Some p"
    using v p e3 by simp_all
  have fr3: "first_revert st3 = Some v"
    using fr full(11) rf by (simp add: push_entry_def)
  have rm3: "revert_map st3 = revert_map st" and l3: "pc_list st3 = pc_list st"
    using lf bf ff by simp_all
  from full(10) v3 p3 fr3 nxt j obtain f where
    f: "pc_fn e3 = Some f" and
    st4: "st4 = st3\<lparr>revert_map := dict_set (revert_map st3) (p, f)
             ((case map_of (revert_map st3) (p, f) of None \<Rightarrow> [] | Some vs \<Rightarrow> vs) @
              [length (pc_list st3) + 1])\<rparr>"
    by (auto simp: revert_jump_def split: option.splits)
  have "map_of (revert_map st') (p, f) =
          Some ((case map_of (revert_map st) (p, f) of None \<Rightarrow> [] | Some vs \<Rightarrow> vs) @
                [length (pc_list st) + 1])"
    using full(11) st4 rm3 l3 by (simp add: push_entry_def map_of_dict_set)
  moreover have "length (pc_list st') = length (pc_list st) + 1"
    using full(11) len by (simp add: push_entry_def)
  ultimately show ?thesis
    using f e3 by simp
qed

text \<open>
  Claim C6 as stated fails on this stream: the step that carries the value \<^verbatim>\<open>0x0\<close> has
  index \<open>4\<close>, and the index recorded for \<^verbatim>\<open>(a.sol, f)\<close> is \<open>5\<close>, the index of the
  \<^verbatim>\<open>JUMPI\<close> that follows.
\<close>

theorem revert_jump_own_index_counterexample:
  "(case walk is_inside_offset [(0, example_unit)] (\<lambda>p. []) revert_rows revert_opcodes
           (initial_state (\<lambda>p. [])) of
      Inl err \<Rightarrow> False
    | Inr st \<Rightarrow>
        first_revert st = Some ''0x0'' \<and> pc_value (pc_list st ! 4) = Some ''0x0'' \<and>
        pc_op (pc_list st ! 5) = ''JUMPI'' \<and>
        revert_map st = [((''a.sol'', ''f''), [5])])"
  by code_simp

theorem revert_jump_records_next_index_witness:
  "(case walk is_inside_offset [(0, example_unit)] (\<lambda>p. []) (take 4 revert_rows) revert_opcodes
           (initial_state (\<lambda>p. [])) of
      Inl err \<Rightarrow> False
    | Inr st \<Rightarrow>
        (case walk_step is_inside_offset [(0, example_unit)] (\<lambda>p. [])
                (Some [PInt 10, PInt 5, PInt 0, PStr ''-'']) [''PUSH1'', ''0x0'', ''JUMPI'', ''''] st of
           Inl err \<Rightarrow> False
         | Inr (ops', st') \<Rightarrow>
             length (pc_list st) = 4 \<and> length (pc_list st') = 5 \<and>
             map_of (revert_map st') (''a.sol'', ''f'') = Some [5]))"
proof -
  let ?w = "walk is_inside_offset [(0, example_unit)] (\<lambda>p. []) (take 4 revert_rows) revert_opcodes
           (initial_state (\<lambda>p. []))"
  have w: "(case ?w of Inl err \<Rightarrow> False | Inr st \<Rightarrow>
              length (pc_list st) = 4 \<and> revert_map st = [] \<and>
              (case walk_step is_inside_offset [(0, example_unit)] (\<lambda>p. [])
                (Some [PInt 10, PInt 5, PInt 0, PStr ''-'']) [''PUSH1'', ''0x0'', ''JUMPI'', ''''] st of
                 Inl err \<Rightarrow> False
               | Inr (ops', st') \<Rightarrow>
                   ops' = [''JUMPI'', ''''] \<and> first_revert st' = Some ''0x0'' \<and>
                   pc_value (last (pc_list st')) = Some ''0x0'' \<and>
                   pc_path (last (pc_list st')) = Some ''a.sol'' \<and>
                   pc_offset (last (pc_list st')) = Some (10, 15) \<and>
                   pc_fn (last (pc_list st')) = Some ''f''))"
    by code_simp
  then obtain st where st: "?w = Inr st" "length (pc_list st) = 4" "revert_map st = []"
    by (auto split: sum.splits)
  let ?s = "walk_step is_inside_offset [(0, example_unit)] (\<lambda>p. [])
                (Some [PInt 10, PInt 5, PInt 0, PStr ''-'']) [''PUSH1'', ''0x0'', ''JUMPI'', ''''] st"
  from w st obtain ops' st' where s: "?s = Inr (ops', st')" and
    h: "ops' = [''JUMPI'', '''']" "first_revert st' = Some ''0x0''"
       "pc_value (last (pc_list st')) = Some ''0x0''"
       "pc_path (last (pc_list st')) = Some ''a.sol''"
       "pc_offset (last (pc_list st')) = Some (10, 15)"
       "pc_fn (last (pc_list st')) = Some ''f''"
    by (auto split: sum.splits)
  from revert_jump_records_next_index [OF s h(3) h(2) h(1) _ h(4) h(5)] st h(6)
  have "length (pc_list st') = 5 \<and> map_of (revert_map st') (''a.sol'', ''f'') = Some [5]"
    by simp
  with st s show ?thesis by simp
qed

section \<open>Properties of the revert reconciliation\<close>






section \<open>Source maps that do not fit the opcodes\<close>









section \<open>Statement indices\<close>











section \<open>The branch map\<close>

lemma finalize_counts:
  "finalize original pairs (pcs, bmap, cnt) = Inr (pcs', bmap', cnt') \<Longrightarrow>
   cnt' = cnt + length pairs \<and> length pcs' = length pcs"
proof (induction pairs arbitrary: pcs bmap cnt)
  case Nil
  then show ?case by simp
next
  case (Cons pair rest)
  obtain path off i0 i1 where pair: "pair = (path, off, i0, i1)"
    by (cases pair) auto
  from Cons.prems pair obtain pcs2 bmap2 where
    "finalize original rest (pcs2, bmap2, cnt + 1) = Inr (pcs', bmap', cnt')"
    "length pcs2 = length pcs"
    by (auto simp: Let_def split: if_splits option.splits prod.splits)
  from Cons.IH [OF this(1)] this(2) show ?case
    by simp
qed

lemma finalize_without_fn:
  "i0 < length pcs \<Longrightarrow> i1 < length pcs \<Longrightarrow> pc_fn (pcs ! i0) = None \<Longrightarrow>
   finalize original ((path, off, i0, i1) # rest) (pcs, bmap, cnt) = Inl KeyError"
  by (cases "i0 = i1") (simp_all add: Let_def)

lemma finalize_step:
  assumes "finalize original ((path, off, i0, i1) # rest) (pcs, bmap, cnt) = Inr (pcs', bmap', cnt')"
  obtains pcs2 f jump where
    "pc_fn (pcs2 ! i0) = Some f" "length pcs2 = length pcs"
    "find (\<lambda>(o', j). o' = off) (original path) = Some (off, jump)"
    "finalize original rest
       (pcs2,
        bmap(path := (bmap path)
          (f \<mapsto> (case bmap path f of None \<Rightarrow> Map.empty | Some d \<Rightarrow> d)
                   (cnt \<mapsto> (fst off, snd off, jump)))),
        cnt + 1) = Inr (pcs', bmap', cnt')"
proof -
  let ?pcs2 = "(pcs[i0 := (pcs ! i0)\<lparr>pc_branch := Some cnt\<rparr>])
                 [i1 := ((pcs[i0 := (pcs ! i0)\<lparr>pc_branch := Some cnt\<rparr>]) ! i1)\<lparr>pc_branch := Some cnt\<rparr>]"
  from assms obtain f where f: "pc_fn (?pcs2 ! i0) = Some f"
    by (auto simp: Let_def split: if_splits option.splits)
  from assms f obtain o' jump where
    fd: "find (\<lambda>(o', j). o' = off) (original path) = Some (o', jump)"
    by (auto simp: Let_def split: if_splits option.splits)
  then have "o' = off"
    by (auto simp: find_Some_iff)
  with assms f fd that [of ?pcs2 f jump] show thesis
    by (auto simp: Let_def split: if_splits)
qed

lemma finalize_keeps:
  "finalize original pairs (pcs, bmap, cnt) = Inr (pcs', bmap', cnt') \<Longrightarrow>
   bmap p f = Some d \<Longrightarrow> d c = Some v \<Longrightarrow> c < cnt \<Longrightarrow>
   \<exists>d'. bmap' p f = Some d' \<and> d' c = Some v"
proof (induction pairs arbitrary: pcs bmap cnt d)
  case Nil
  then show ?case by simp
next
  case (Cons pair rest)
  obtain path off i0 i1 where pair: "pair = (path, off, i0, i1)"
    by (cases pair) auto
  from Cons.prems(1) [unfolded pair] show ?case
  proof (cases rule: finalize_step)
    case (1 pcs2 g jump)
    let ?bmap2 = "bmap(path := (bmap path)
          (g \<mapsto> (case bmap path g of None \<Rightarrow> Map.empty | Some d \<Rightarrow> d)
                   (cnt \<mapsto> (fst off, snd off, jump))))"
    have "\<exists>d2. ?bmap2 p f = Some d2 \<and> d2 c = Some v"
    proof (cases "p = path \<and> f = g")
      case True
      with Cons.prems(2-4) show ?thesis by auto
    next
      case False
      with Cons.prems(2,3) show ?thesis by auto
    qed
    then obtain d2 where "?bmap2 p f = Some d2" "d2 c = Some v"
      by blast
    from Cons.IH [OF 1(4) this] Cons.prems(4) show ?thesis
      by simp
  qed
qed

lemma finalize_entries:
  "finalize original pairs (pcs, bmap, cnt) = Inr (pcs', bmap', cnt') \<Longrightarrow> i < length pairs \<Longrightarrow>
   pairs ! i = (path, off, i0, i1) \<Longrightarrow>
   \<exists>f d jump. bmap' path f = Some d \<and> d (cnt + i) = Some (fst off, snd off, jump) \<and>
              find (\<lambda>(o', j). o' = off) (original path) = Some (off, jump)"
proof (induction pairs arbitrary: pcs bmap cnt i)
  case Nil
  then show ?case by simp
next
  case (Cons pair rest)
  obtain path0 off0 a0 a1 where pair: "pair = (path0, off0, a0, a1)"
    by (cases pair) auto
  from Cons.prems(1) [unfolded pair] show ?case
  proof (cases rule: finalize_step)
    case (1 pcs2 g jump)
    let ?bmap2 = "bmap(path0 := (bmap path0)
          (g \<mapsto> (case bmap path0 g of None \<Rightarrow> Map.empty | Some d \<Rightarrow> d)
                   (cnt \<mapsto> (fst off0, snd off0, jump))))"
    show ?thesis
    proof (cases i)
      case 0
      with Cons.prems(3) pair have same: "path = path0" "off = off0"
        by simp_all
      obtain d2 where "?bmap2 path0 g = Some d2" "d2 cnt = Some (fst off0, snd off0, jump)"
        by simp
      from finalize_keeps [OF 1(4) this] obtain d' where
        "bmap' path0 g = Some d'" "d' cnt = Some (fst off0, snd off0, jump)"
        by auto
      with 0 same 1(3) show ?thesis
        by auto
    next
      case (Suc j)
      with Cons.prems(2,3) have "j < length rest" "rest ! j = (path, off, i0, i1)"
        by simp_all
      from Cons.IH [OF 1(4) this] Suc show ?thesis
        by simp
    qed
  qed
qed

text \<open>
  Claim C8.  The code at a resolved pair whose armed step has no function label: the first
  instruction of the stream carries the offset of a branch candidate, so it is armed at
  index \<open>0\<close>, where \<^verbatim>\<open>pc_list[-2]\<close> does not exist and no function is looked up; the
  \<^verbatim>\<open>JUMPI\<close> at index \<open>1\<close> resolves it.  The last loop then takes the branch
  \<^verbatim>\<open>source_nodes[path]\<close> and raises \<^verbatim>\<open>KeyError\<close>: no branch map is returned.  Where
  every armed step has a function label, \<open>finalize_entries\<close> and \<open>finalize_counts\<close> above
  give each resolved pair its entry and one index.
\<close>

theorem branch_without_fn_raises:
  "(case generate_coverage_data is_inside_offset ''10:5:0:-;'' ''PUSH1 0x1 JUMPI ''
           [(0, example_unit)] (\<lambda>p. Some []) (\<lambda>p. Some [((10, 15), True)]) of
      Inl err \<Rightarrow> err = KeyError
    | Inr maps \<Rightarrow> False) \<and>
   (case walk is_inside_offset [(0, example_unit)] (\<lambda>p. [(10, 15)])
           [Some [PInt 10, PInt 5, PInt 0, PStr ''-''], Some [PInt 10, PInt 5, PInt 0, PStr ''-'']]
           [''PUSH1'', ''0x1'', ''JUMPI'', ''''] (initial_state (\<lambda>p. [])) of
      Inl err \<Rightarrow> False
    | Inr st \<Rightarrow>
        branch_set st ''a.sol'' = [((10, 15), 0, 1)] \<and> pc_fn (pc_list st ! 0) = None)"
  by code_simp

end
